theory Spec2Isabelle
  imports Complex_Main "HOL-Library.Multiset"
begin

section \<open>JavaScript Numbers\<close>

text \<open>
  The program computes with JavaScript Numbers, that is IEEE 754 doubles. Roots come out of
  \<open>parseInt\<close> and are only ever combined by unary minus, \<open>+\<close> and \<open>*\<close>, so every value the
  program reaches is an integer that a double can hold, \<open>Infinity\<close>, \<open>-Infinity\<close> or \<open>NaN\<close>.
  \<open>jsnum\<close> is exactly that fragment of Number. \<open>Fin n\<close> stands for the double whose value is
  the integer \<open>n\<close>; \<open>-0\<close> is identified with \<open>0\<close>, as \<open>===\<close> does, since none of the
  functions modelled here tells them apart.
\<close>

datatype jsnum = Fin int | PInf | NInf | NaN

text \<open>
  Rounding an integer to the nearest double, ties to even. A double has 53 significant
  bits: \<open>expo n\<close> is the number of low bits of the magnitude \<open>n\<close> that do not fit,
  \<open>round_mag\<close> drops them and rounds the rest, and \<open>fl\<close> overflows to an infinity from
  \<open>2 ^ 1024\<close> on.
\<close>

function expo :: "int \<Rightarrow> nat" where
  "expo n = (if n < 2 ^ 53 then 0 else Suc (expo (n div 2)))"
  by pat_completeness auto
termination
  by (relation "measure nat") auto

declare expo.simps [simp del]

definition round_mag :: "int \<Rightarrow> int" where
  "round_mag n =
     (let e = expo n; q = n div 2 ^ e; r = n mod 2 ^ e
      in if 2 ^ e < 2 * r \<or> (2 * r = 2 ^ e \<and> odd q) then (q + 1) * 2 ^ e else q * 2 ^ e)"

definition fl :: "int \<Rightarrow> jsnum" where
  "fl n =
     (let m = round_mag \<bar>n\<bar>
      in if 2 ^ 1024 \<le> m then (if n < 0 then NInf else PInf) else Fin (sgn n * m))"

text \<open>The integers that are doubles: the values a Number-typed integer argument can have.\<close>

definition representable :: "int \<Rightarrow> bool" where
  "representable n = (fl n = Fin n)"

text \<open>Unary minus, \<open>+\<close> and \<open>*\<close> of Numbers, and \<open>Math.abs\<close>.\<close>

fun jneg :: "jsnum \<Rightarrow> jsnum" where
  "jneg (Fin a) = Fin (- a)"
| "jneg PInf = NInf"
| "jneg NInf = PInf"
| "jneg NaN = NaN"

fun jadd :: "jsnum \<Rightarrow> jsnum \<Rightarrow> jsnum" where
  "jadd (Fin a) (Fin b) = fl (a + b)"
| "jadd (Fin a) PInf = PInf"
| "jadd (Fin a) NInf = NInf"
| "jadd PInf (Fin b) = PInf"
| "jadd PInf PInf = PInf"
| "jadd PInf NInf = NaN"
| "jadd NInf (Fin b) = NInf"
| "jadd NInf PInf = NaN"
| "jadd NInf NInf = NInf"
| "jadd NaN y = NaN"
| "jadd x NaN = NaN"

fun jmul :: "jsnum \<Rightarrow> jsnum \<Rightarrow> jsnum" where
  "jmul (Fin a) (Fin b) = fl (a * b)"
| "jmul (Fin a) PInf = (if a = 0 then NaN else if 0 < a then PInf else NInf)"
| "jmul (Fin a) NInf = (if a = 0 then NaN else if 0 < a then NInf else PInf)"
| "jmul PInf (Fin b) = (if b = 0 then NaN else if 0 < b then PInf else NInf)"
| "jmul NInf (Fin b) = (if b = 0 then NaN else if 0 < b then NInf else PInf)"
| "jmul PInf PInf = PInf"
| "jmul PInf NInf = NInf"
| "jmul NInf PInf = NInf"
| "jmul NInf NInf = PInf"
| "jmul NaN y = NaN"
| "jmul x NaN = NaN"



section \<open>polynomialSolver.js\<close>

text \<open>
  The errors the program throws: \<open>new Array(-1)\<close> throws a \<open>RangeError\<close>; the others are
  \<open>Error\<close> objects told apart by their message.
\<close>

datatype error =
    RangeError
  | AtLeastOneRootRequired
  | BaseNotSupported
  | ValueMustBeNonEmptyString
  | InvalidValue

text \<open>
  \<open>multiplyPolynomials\<close>: the result array is allocated with \<open>poly1.length + poly2.length - 1\<close>
  zeros, then the two nested loops run over \<open>i\<close> and \<open>j\<close> and add \<open>poly1[i] * poly2[j]\<close> to
  \<open>result[i + j]\<close>. The index \<open>i + j\<close> is at most \<open>poly1.length + poly2.length - 2\<close>, so every
  write is inside the array.
\<close>

definition mult_inner :: "jsnum list \<Rightarrow> jsnum list \<Rightarrow> nat \<Rightarrow> jsnum list \<Rightarrow> jsnum list" where
  "mult_inner poly1 poly2 i result =
     fold (\<lambda>j res. res[i + j := jadd (res ! (i + j)) (jmul (poly1 ! i) (poly2 ! j))])
       [0..<length poly2] result"

definition multiplyPolynomials :: "jsnum list \<Rightarrow> jsnum list \<Rightarrow> error + jsnum list" where
  "multiplyPolynomials poly1 poly2 =
     (let n = int (length poly1) + int (length poly2) - 1
      in if n < 0 then Inl RangeError
         else Inr (fold (mult_inner poly1 poly2) [0..<length poly1] (replicate (nat n) (Fin 0))))"

text \<open>
  \<open>buildPolynomial\<close>: the empty root list is refused (the argument is a list here, so the
  \<open>!roots\<close> half of the guard, for \<open>null\<close> and \<open>undefined\<close>, has no input); then the loop
  multiplies the accumulator, starting from \<open>[1]\<close>, by \<open>[-root, 1]\<close> for each root in order.
\<close>

fun build_loop :: "jsnum list \<Rightarrow> jsnum list \<Rightarrow> error + jsnum list" where
  "build_loop polynomial [] = Inr polynomial"
| "build_loop polynomial (r # roots) =
     (case multiplyPolynomials polynomial [jneg r, Fin 1] of
        Inl e \<Rightarrow> Inl e
      | Inr p \<Rightarrow> build_loop p roots)"

definition buildPolynomial :: "jsnum list \<Rightarrow> error + jsnum list" where
  "buildPolynomial roots =
     (if length roots = 0 then Inl AtLeastOneRootRequired else build_loop [Fin 1] roots)"

text \<open>
  \<open>evaluatePolynomial\<close>: the loop carries \<open>result\<close> and \<open>power\<close> (here \<open>pow\<close>); each
  coefficient adds \<open>coefficients[i] * power\<close> to \<open>result\<close> and multiplies \<open>power\<close> by \<open>x\<close>.
\<close>

fun eval_loop :: "jsnum list \<Rightarrow> jsnum \<Rightarrow> jsnum \<Rightarrow> jsnum \<Rightarrow> jsnum" where
  "eval_loop [] x result pow = result"
| "eval_loop (c # cs) x result pow =
     eval_loop cs x (jadd result (jmul c pow)) (jmul pow x)"

definition evaluatePolynomial :: "jsnum list \<Rightarrow> jsnum \<Rightarrow> jsnum" where
  "evaluatePolynomial coefficients x = eval_loop coefficients x (Fin 0) (Fin 1)"



section \<open>baseConversion.js\<close>

text \<open>
  Strings are lists of code units; \<open>char\<close> covers the code units below 256, which is where
  every digit, sign and prefix character of \<open>parseInt\<close> lies. The white space that
  \<open>parseInt\<close> skips is, below 256: TAB, LF, VT, FF, CR, SP and NBSP.
\<close>

definition is_white_space :: "char \<Rightarrow> bool" where
  "is_white_space c = (of_char c \<in> {9, 10, 11, 12, 13, 32, 160 :: int})"

text \<open>The value of a digit: \<open>0\<close> to \<open>9\<close>, then \<open>a\<close> to \<open>z\<close> and \<open>A\<close> to \<open>Z\<close> for 10 to 35.\<close>

definition digit_of :: "char \<Rightarrow> int option" where
  "digit_of c =
     (let k = of_char c :: int
      in if 48 \<le> k \<and> k \<le> 57 then Some (k - 48)
         else if 97 \<le> k \<and> k \<le> 122 then Some (k - 87)
         else if 65 \<le> k \<and> k \<le> 90 then Some (k - 55)
         else None)"

definition is_radix_digit :: "int \<Rightarrow> char \<Rightarrow> bool" where
  "is_radix_digit R c = (case digit_of c of None \<Rightarrow> False | Some d \<Rightarrow> d < R)"

definition digit_value :: "char \<Rightarrow> int" where
  "digit_value c = (case digit_of c of None \<Rightarrow> 0 | Some d \<Rightarrow> d)"

definition to_int32 :: "int \<Rightarrow> int" where
  "to_int32 n = (n + 2 ^ 31) mod 2 ^ 32 - 2 ^ 31"

definition math_int :: "int \<Rightarrow> string \<Rightarrow> int" where
  "math_int R Z = foldl (\<lambda>acc c. acc * R + digit_value c) 0 Z"

text \<open>
  The builtin \<open>parseInt(string, radix)\<close> as ECMAScript defines it, for an integer radix:
  leading white space is skipped, one sign is read, the radix goes through \<open>ToInt32\<close>, a
  radix outside 2..36 other than 0 gives \<open>NaN\<close>, for radix 16 (and 0) a prefix \<open>0x\<close> or \<open>0X\<close>
  is removed, and \<open>Z\<close> is the longest prefix of radix digits: \<open>NaN\<close> when it is empty,
  otherwise the Number for \<open>sign * mathInt\<close>. (The standard lets an implementation
  approximate \<open>mathInt\<close> when the radix is not 2, 4, 8, 10, 16 or 32, or after the 20th
  significant decimal digit; the model takes the integer itself.)
\<close>

definition parseInt :: "string \<Rightarrow> int \<Rightarrow> jsnum" where
  "parseInt string radix =
     (let S = dropWhile is_white_space string;
          sign = (case S of c # _ \<Rightarrow> if c = CHR ''-'' then - 1 else 1 | [] \<Rightarrow> (1 :: int));
          S = (case S of c # cs \<Rightarrow> if c = CHR ''+'' \<or> c = CHR ''-'' then cs else S | [] \<Rightarrow> S);
          R = to_int32 radix
      in if R \<noteq> 0 \<and> (R < 2 \<or> 36 < R) then NaN
         else
           let stripPrefix = (R = 0 \<or> R = 16);
               R = (if R = 0 then 10 else R);
               strip = (stripPrefix \<and> (take 2 S = ''0x'' \<or> take 2 S = ''0X''));
               S = (if strip then drop 2 S else S);
               R = (if strip then 16 else R);
               Z = takeWhile (is_radix_digit R) S
           in if Z = [] then NaN else fl (sign * math_int R Z))"

text \<open>
  The argument \<open>value\<close> of \<open>convertToDecimal\<close> is a string or, for the \<open>typeof\<close> test,
  something else; \<open>base\<close> is an integer (a \<open>NaN\<close> base, which passes both comparisons of the
  guard, is not an input here).
\<close>

datatype js_value = Str string | NotAString

definition convertToDecimal :: "js_value \<Rightarrow> int \<Rightarrow> error + jsnum" where
  "convertToDecimal v base =
     (if base < 2 \<or> 16 < base then Inl BaseNotSupported
      else case v of
        NotAString \<Rightarrow> Inl ValueMustBeNonEmptyString
      | Str s \<Rightarrow>
          if length s = 0 then Inl ValueMustBeNonEmptyString
          else let decimal = parseInt s base
               in if decimal = NaN then Inl InvalidValue else Inr decimal)"

text \<open>\<open>isValidNumber\<close>: true when \<open>convertToDecimal\<close> returns, false when it throws.\<close>

definition isValidNumber :: "js_value \<Rightarrow> int \<Rightarrow> bool" where
  "isValidNumber v base = (case convertToDecimal v base of Inl e \<Rightarrow> False | Inr d \<Rightarrow> True)"

section \<open>Exact integer arithmetic, for comparison\<close>

text \<open>
  What the claims compare the program with: the value \<open>\<Sum> cs[i] * x^i\<close> of a coefficient list
  over the integers, the value of a digit string in positional notation, and the sum that
  a loop \<open>acc += term\<close> starting from 0 computes in Number arithmetic.
\<close>

definition poly_value :: "int list \<Rightarrow> int \<Rightarrow> int" where
  "poly_value cs x = (\<Sum>i<length cs. cs ! i * x ^ i)"

definition positional_value :: "int \<Rightarrow> string \<Rightarrow> int" where
  "positional_value b s = (\<Sum>i<length s. digit_value (s ! i) * b ^ (length s - 1 - i))"




text \<open>
  The product of the factors \<open>M + \<bar>r\<bar>\<close>: no coefficient, product or partial sum that the
  program meets on the roots \<open>rs\<close> is larger (with \<open>M = 1\<close> while building, with
  \<open>M = max 1 \<bar>x\<bar>\<close> while evaluating at \<open>x\<close>), so at most \<open>2 ^ 53\<close> means no rounding.
\<close>

definition magnitude_bound :: "int \<Rightarrow> int list \<Rightarrow> int" where
  "magnitude_bound M rs = prod_list (map (\<lambda>r. M + \<bar>r\<bar>) rs)"

text \<open>
  The exact coefficients of \<open>p(x) * (x - r)\<close>, and of the product of all \<open>x - r\<close>; the
  weighted size \<open>\<Sum> \<bar>cs[i]\<bar> * M^i\<close> of a coefficient list.
\<close>

fun lin_mul_from :: "int \<Rightarrow> int list \<Rightarrow> int \<Rightarrow> int list" where
  "lin_mul_from prev [] r = [prev]"
| "lin_mul_from prev (c # cs) r = (prev - r * c) # lin_mul_from c cs r"

definition expand :: "int list \<Rightarrow> int list" where
  "expand rs = fold (\<lambda>r cs. lin_mul_from 0 cs r) rs [1]"

fun wsum :: "int \<Rightarrow> int list \<Rightarrow> int" where
  "wsum M [] = 0"
| "wsum M (c # cs) = \<bar>c\<bar> + M * wsum M cs"

text \<open>The products that reach \<open>result[t]\<close> while \<open>i\<close> runs below \<open>k\<close>.\<close>

definition conv_terms :: "jsnum list \<Rightarrow> jsnum list \<Rightarrow> nat \<Rightarrow> nat \<Rightarrow> jsnum list" where
  "conv_terms p q k t =
     map (\<lambda>i. jmul (p ! i) (q ! (t - i))) (filter (\<lambda>i. i \<le> t \<and> t - i < length q) [0..<k])"

section \<open>Rounding\<close>

lemma expo_small: "n < 2 ^ 53 \<Longrightarrow> expo n = 0"
  by (simp add: expo.simps)

lemma round_mag_small: "n < 2 ^ 53 \<Longrightarrow> round_mag n = n"
  by (simp add: round_mag_def expo_small)

lemma expo_2_53: "expo (2 ^ 53) = 1"
  by (subst expo.simps) (simp add: expo_small)

lemma round_mag_2_53: "round_mag (2 ^ 53) = 2 ^ 53"
  unfolding round_mag_def expo_2_53 by simp

lemma round_mag_exact: "n \<le> 2 ^ 53 \<Longrightarrow> round_mag n = n"
  using round_mag_small [of n] round_mag_2_53 by (cases "n = 2 ^ 53") auto

lemma fl_exact: "\<bar>n\<bar> \<le> 2 ^ 53 \<Longrightarrow> fl n = Fin n"
proof -
  assume h: "\<bar>n\<bar> \<le> 2 ^ 53"
  then have "round_mag \<bar>n\<bar> = \<bar>n\<bar>" by (rule round_mag_exact)
  moreover have "\<not> (2 :: int) ^ 1024 \<le> \<bar>n\<bar>" using h by simp
  moreover have "sgn n * \<bar>n\<bar> = n" by (simp add: mult_sgn_abs)
  ultimately show ?thesis by (simp add: fl_def)
qed

lemma fl_neg: "fl (- n) = jneg (fl n)"
  by (cases "n = 0") (auto simp: fl_def Let_def round_mag_small)

lemma fl_0 [simp]: "fl 0 = Fin 0"
  by (simp add: fl_exact)

lemma fl_1 [simp]: "fl 1 = Fin 1"
  by (simp add: fl_exact)

lemma expo_Suc: "2 ^ 53 \<le> n \<Longrightarrow> expo n = Suc (expo (n div 2))"
  by (subst expo.simps) simp

lemma expo_bounds:
  "2 ^ 53 \<le> n \<Longrightarrow> 2 ^ 52 \<le> n div 2 ^ expo n \<and> n div 2 ^ expo n < 2 ^ 53"
proof (induction n rule: expo.induct)
  case (1 n)
  have e: "expo n = Suc (expo (n div 2))" using "1.prems" by (rule expo_Suc)
  have d: "n div 2 ^ Suc (expo (n div 2)) = (n div 2) div 2 ^ expo (n div 2)"
    by (simp add: zdiv_zmult2_eq)
  show ?case
  proof (cases "n div 2 < 2 ^ 53")
    case True
    then have "expo (n div 2) = 0" by (rule expo_small)
    then show ?thesis using e d True "1.prems" by simp
  next
    case False
    then have "2 ^ 53 \<le> n div 2" by simp
    with "1.IH" "1.prems" show ?thesis using e d by simp
  qed
qed

lemma expo_le: "n < 2 ^ (53 + e) \<Longrightarrow> expo n \<le> e"
proof (induction e arbitrary: n)
  case 0
  then show ?case by (simp add: expo_small)
next
  case (Suc e)
  show ?case
  proof (cases "n < 2 ^ 53")
    case True
    then show ?thesis by (simp add: expo_small)
  next
    case False
    then have "expo n = Suc (expo (n div 2))" by (intro expo_Suc) simp
    moreover have "n div 2 < 2 ^ (53 + e)"
    proof -
      have "n < 2 * 2 ^ (53 + e)" using Suc.prems by (simp only: add_Suc_right power_Suc)
      then show ?thesis by linarith
    qed
    ultimately show ?thesis using Suc.IH [of "n div 2"] by simp
  qed
qed

lemma round_mag_scaled:
  assumes "0 \<le> m" and "m < 2 ^ 53"
  shows "round_mag (m * 2 ^ e) = m * 2 ^ e"
proof -
  define n where "n = m * 2 ^ e"
  define E where "E = expo n"
  have "n < 2 ^ 53 * 2 ^ e" using assms by (simp add: n_def)
  then have "n < 2 ^ (53 + e)" by (simp add: power_add)
  then have "E \<le> e" unfolding E_def by (rule expo_le)
  then obtain k where k: "e = E + k" using le_Suc_ex by blast
  have n: "n = (m * 2 ^ k) * 2 ^ E"
    by (simp add: n_def k power_add mult_ac)
  have r: "n mod 2 ^ E = 0" by (subst n) simp
  have q: "n div 2 ^ E * 2 ^ E = n" by (subst (1 2) n) simp
  have "round_mag n = n"
    using r q by (simp add: round_mag_def Let_def E_def [symmetric])
  then show ?thesis by (simp add: n_def)
qed

lemma fl_scaled:
  assumes "\<bar>m\<bar> < 2 ^ 53" and "\<bar>m\<bar> * 2 ^ e < 2 ^ 1024"
  shows "fl (m * 2 ^ e) = Fin (m * 2 ^ e)"
proof -
  have a: "\<bar>m * 2 ^ e\<bar> = \<bar>m\<bar> * 2 ^ e" by (simp add: abs_mult)
  have "round_mag (\<bar>m\<bar> * 2 ^ e) = \<bar>m\<bar> * 2 ^ e"
    using assms(1) by (intro round_mag_scaled) auto
  moreover have "sgn (m * 2 ^ e) * (\<bar>m\<bar> * 2 ^ e) = m * 2 ^ e"
    using mult_sgn_abs [of "m * 2 ^ e"] by (simp only: a)
  ultimately show ?thesis using assms(2) by (simp add: fl_def a)
qed



section \<open>The loops of multiplyPolynomials\<close>

lemma length_mult_inner_upto:
  "length (fold (\<lambda>j res. res[i + j := g res j]) [0..<k] res) = length res"
  by (induction k) auto

lemma length_mult_inner [simp]: "length (mult_inner p q i res) = length res"
  unfolding mult_inner_def by (rule length_mult_inner_upto)

lemma mult_inner_upto_nth:
  "t < length res \<Longrightarrow>
   fold (\<lambda>j res. res[i + j := jadd (res ! (i + j)) (jmul (p ! i) (q ! j))]) [0..<k] res ! t =
     (if i \<le> t \<and> t - i < k then jadd (res ! t) (jmul (p ! i) (q ! (t - i))) else res ! t)"
proof (induction k)
  case 0
  then show ?case by simp
next
  case (Suc k)
  let ?f = "\<lambda>j res. res[i + j := jadd (res ! (i + j)) (jmul (p ! i) (q ! j))]"
  let ?r = "fold ?f [0..<k] res"
  have len: "length ?r = length res" by (rule length_mult_inner_upto)
  have step: "fold ?f [0..<Suc k] res = ?r[i + k := jadd (?r ! (i + k)) (jmul (p ! i) (q ! k))]"
    by simp
  show ?case
  proof (cases "t = i + k")
    case True
    then have "fold ?f [0..<Suc k] res ! t = jadd (?r ! t) (jmul (p ! i) (q ! k))"
      using Suc.prems len by (simp only: step) simp
    moreover have "?r ! t = res ! t" using Suc.IH [OF Suc.prems] True by simp
    ultimately show ?thesis using True by simp
  next
    case False
    then have "fold ?f [0..<Suc k] res ! t = ?r ! t"
      by (simp only: step) simp
    moreover have "(i \<le> t \<and> t - i < Suc k) = (i \<le> t \<and> t - i < k)"
      using False by auto
    ultimately show ?thesis using Suc.IH [OF Suc.prems] by simp
  qed
qed

lemma mult_inner_nth:
  "t < length res \<Longrightarrow>
   mult_inner p q i res ! t =
     (if i \<le> t \<and> t - i < length q then jadd (res ! t) (jmul (p ! i) (q ! (t - i)))
      else res ! t)"
  unfolding mult_inner_def by (rule mult_inner_upto_nth)

lemma length_mult_outer [simp]: "length (fold (mult_inner p q) [0..<k] res) = length res"
  by (induction k) auto

lemma mult_outer_nth:
  "t < length res \<Longrightarrow>
   fold (mult_inner p q) [0..<k] res ! t = foldl jadd (res ! t) (conv_terms p q k t)"
proof (induction k)
  case 0
  then show ?case by (simp add: conv_terms_def)
next
  case (Suc k)
  have "fold (mult_inner p q) [0..<Suc k] res ! t
      = mult_inner p q k (fold (mult_inner p q) [0..<k] res) ! t"
    by simp
  also have "\<dots> = (if k \<le> t \<and> t - k < length q
      then jadd (fold (mult_inner p q) [0..<k] res ! t) (jmul (p ! k) (q ! (t - k)))
      else fold (mult_inner p q) [0..<k] res ! t)"
    using Suc.prems by (simp add: mult_inner_nth)
  finally show ?case
    using Suc.IH [OF Suc.prems] by (simp add: conv_terms_def)
qed


lemma multiplyPolynomials_Inr:
  "p \<noteq> [] \<or> q \<noteq> [] \<Longrightarrow>
   multiplyPolynomials p q =
     Inr (fold (mult_inner p q) [0..<length p] (replicate (length p + length q - 1) (Fin 0)))"
proof -
  assume "p \<noteq> [] \<or> q \<noteq> []"
  then have pos: "0 < length p + length q" by auto
  then have "\<not> int (length p) + int (length q) - 1 < 0" by linarith
  moreover have "nat (int (length p) + int (length q) - 1) = length p + length q - 1"
    using pos by linarith
  ultimately show ?thesis by (simp add: multiplyPolynomials_def Let_def)
qed

lemma filter_linear:
  "filter (\<lambda>i. i \<le> t \<and> t - i < 2) [0..<m] =
     (if t = 0 then (if 0 < m then [0] else [])
      else if t < m then [t - 1, t]
      else if t = m then [t - 1]
      else [])"
proof (induction m)
  case 0
  then show ?case by simp
next
  case (Suc m)
  then show ?case by (auto simp: less_Suc_eq)
qed

lemma multiplyPolynomials_nth:
  assumes "p \<noteq> [] \<or> q \<noteq> []"
  shows "\<exists>res. multiplyPolynomials p q = Inr res \<and> length res = length p + length q - 1 \<and>
    (\<forall>t<length p + length q - 1. res ! t = foldl jadd (Fin 0) (conv_terms p q (length p) t))"
proof -
  let ?zeros = "replicate (length p + length q - 1) (Fin 0)"
  let ?res = "fold (mult_inner p q) [0..<length p] ?zeros"
  have r: "multiplyPolynomials p q = Inr ?res"
    using assms by (rule multiplyPolynomials_Inr)
  have len: "length ?res = length p + length q - 1" by simp
  have nth: "?res ! t = foldl jadd (Fin 0) (conv_terms p q (length p) t)"
    if "t < length p + length q - 1" for t
  proof -
    have t: "t < length ?zeros" using that by simp
    have z: "?zeros ! t = Fin 0" using that by (rule nth_replicate)
    show ?thesis using mult_outer_nth [OF t, of p q "length p"] by (simp only: z)
  qed
  show ?thesis using r len nth by blast
qed

lemma multiplyPolynomials_linear:
  assumes "p \<noteq> []"
  shows "\<exists>res. multiplyPolynomials p [a, b] = Inr res \<and> length res = length p + 1 \<and>
    (\<forall>t\<le>length p. res ! t =
       (if t = 0 then jadd (Fin 0) (jmul (p ! 0) a)
        else if t < length p then jadd (jadd (Fin 0) (jmul (p ! (t - 1)) b)) (jmul (p ! t) a)
        else jadd (Fin 0) (jmul (p ! (t - 1)) b)))"
proof -
  obtain res where r: "multiplyPolynomials p [a, b] = Inr res"
    and len: "length res = length p + length [a, b] - 1"
    and nth: "\<And>t. t < length p + length [a, b] - 1 \<Longrightarrow>
      res ! t = foldl jadd (Fin 0) (conv_terms p [a, b] (length p) t)"
    using multiplyPolynomials_nth [of p "[a, b]"] by blast
  have "res ! t =
       (if t = 0 then jadd (Fin 0) (jmul (p ! 0) a)
        else if t < length p then jadd (jadd (Fin 0) (jmul (p ! (t - 1)) b)) (jmul (p ! t) a)
        else jadd (Fin 0) (jmul (p ! (t - 1)) b))" if "t \<le> length p" for t
  proof -
    have l2: "length [a, b] = 2" by simp
    have "conv_terms p [a, b] (length p) t =
      map (\<lambda>i. jmul (p ! i) ([a, b] ! (t - i)))
        (if t = 0 then (if 0 < length p then [0] else [])
         else if t < length p then [t - 1, t]
         else if t = length p then [t - 1]
         else [])"
      unfolding conv_terms_def l2 filter_linear ..
    moreover have "res ! t = foldl jadd (Fin 0) (conv_terms p [a, b] (length p) t)"
      using nth [of t] that by simp
    ultimately show ?thesis using that assms by (auto simp: numeral_2_eq_2)
  qed
  then show ?thesis using r len by simp
qed

section \<open>The shape of the built polynomial\<close>

lemma multiplyPolynomials_linear_last:
  assumes "p \<noteq> []" and "last p = Fin 1"
  shows "\<exists>res. multiplyPolynomials p [a, Fin 1] = Inr res \<and> length res = length p + 1 \<and>
    last res = Fin 1"
proof -
  obtain res where r: "multiplyPolynomials p [a, Fin 1] = Inr res"
    and len: "length res = length p + 1"
    and nth: "\<forall>t\<le>length p. res ! t =
       (if t = 0 then jadd (Fin 0) (jmul (p ! 0) a)
        else if t < length p then jadd (jadd (Fin 0) (jmul (p ! (t - 1)) (Fin 1))) (jmul (p ! t) a)
        else jadd (Fin 0) (jmul (p ! (t - 1)) (Fin 1)))"
    using multiplyPolynomials_linear [OF assms(1), of a "Fin 1"] by blast
  have "p ! (length p - 1) = Fin 1"
    using assms by (simp add: last_conv_nth)
  moreover have "res ! length p = jadd (Fin 0) (jmul (p ! (length p - 1)) (Fin 1))"
    using nth assms(1) by simp
  ultimately have "res ! length p = Fin 1" by simp
  moreover have "last res = res ! length p"
  proof -
    have "res \<noteq> []" using len by auto
    then show ?thesis using len by (simp add: last_conv_nth)
  qed
  ultimately show ?thesis using r len by simp
qed

lemma build_loop_shape:
  "p \<noteq> [] \<Longrightarrow> last p = Fin 1 \<Longrightarrow>
   \<exists>res. build_loop p roots = Inr res \<and> length res = length p + length roots \<and> last res = Fin 1"
proof (induction roots arbitrary: p)
  case Nil
  then show ?case by simp
next
  case (Cons r roots)
  obtain q where q: "multiplyPolynomials p [jneg r, Fin 1] = Inr q"
    and lq: "length q = length p + 1" and lastq: "last q = Fin 1"
    using multiplyPolynomials_linear_last [OF Cons.prems] by blast
  have "q \<noteq> []" using lq by auto
  from Cons.IH [OF this lastq] obtain res where
    "build_loop q roots = Inr res" "length res = length q + length roots" "last res = Fin 1"
    by blast
  then show ?case using q lq by simp
qed

lemma buildPolynomial_shape:
  "roots \<noteq> [] \<Longrightarrow>
   \<exists>cs. buildPolynomial roots = Inr cs \<and> length cs = length roots + 1 \<and> last cs = Fin 1"
  using build_loop_shape [of "[Fin 1]" roots] by (simp add: buildPolynomial_def)

lemma buildPolynomial_single:
  assumes "representable r"
  shows "buildPolynomial [Fin r] = Inr [Fin (- r), Fin 1]"
proof -
  obtain res where r: "multiplyPolynomials [Fin 1] [Fin (- r), Fin 1] = Inr res"
    and len: "length res = 2"
    and nth: "\<forall>t\<le>1. res ! t =
       (if t = 0 then jadd (Fin 0) (jmul ([Fin 1] ! 0) (Fin (- r)))
        else if t < 1 then jadd (jadd (Fin 0) (jmul ([Fin 1] ! (t - 1)) (Fin 1))) (jmul ([Fin 1] ! t) (Fin (- r)))
        else jadd (Fin 0) (jmul ([Fin 1] ! (t - 1)) (Fin 1)))"
    using multiplyPolynomials_linear [of "[Fin 1]" "Fin (- r)" "Fin 1"] by auto
  have neg: "fl (- r) = Fin (- r)"
    using assms by (simp add: fl_neg representable_def)
  have "res ! 0 = Fin (- r)" using nth neg by simp
  moreover have "res ! 1 = Fin 1" using nth by simp
  moreover have "res = [res ! 0, res ! 1]"
    using len by (auto simp: list_eq_iff_nth_eq numeral_2_eq_2 less_Suc_eq)
  ultimately have "res = [Fin (- r), Fin 1]" by simp
  then show ?thesis using r by (simp add: buildPolynomial_def)
qed

lemma poly_value_Nil [simp]: "poly_value [] x = 0"
  by (simp add: poly_value_def)

lemma poly_value_Cons [simp]: "poly_value (c # cs) x = c + x * poly_value cs x"
proof -
  have "poly_value (c # cs) x = (\<Sum>i<Suc (length cs). (c # cs) ! i * x ^ i)"
    by (simp add: poly_value_def)
  also have "\<dots> = c + (\<Sum>i<length cs. cs ! i * x ^ Suc i)"
    by (subst sum.lessThan_Suc_shift) simp
  also have "(\<Sum>i<length cs. cs ! i * x ^ Suc i) = x * poly_value cs x"
    by (simp add: poly_value_def sum_distrib_left mult_ac)
  finally show ?thesis .
qed

section \<open>Exact products of linear factors\<close>

lemma jmul_exact: "\<bar>a * b\<bar> \<le> 2 ^ 53 \<Longrightarrow> jmul (Fin a) (Fin b) = Fin (a * b)"
  by (simp add: fl_exact)

lemma jadd_exact: "\<bar>a + b\<bar> \<le> 2 ^ 53 \<Longrightarrow> jadd (Fin a) (Fin b) = Fin (a + b)"
  by (simp add: fl_exact)

lemma length_lin_mul_from [simp]: "length (lin_mul_from prev cs r) = length cs + 1"
  by (induction cs arbitrary: prev) auto

lemma lin_mul_from_nth:
  "t \<le> length cs \<Longrightarrow>
   lin_mul_from prev cs r ! t =
     (if t = 0 then prev else cs ! (t - 1)) - r * (if t < length cs then cs ! t else 0)"
proof (induction cs arbitrary: prev t)
  case Nil
  then show ?case by simp
next
  case (Cons c cs)
  show ?case
  proof (cases t)
    case 0
    then show ?thesis by simp
  next
    case (Suc u)
    then have "u \<le> length cs" using Cons.prems by simp
    from Cons.IH [OF this, of c] show ?thesis using Suc by (cases u) auto
  qed
qed

lemma poly_value_lin_mul_from:
  "poly_value (lin_mul_from prev cs r) x = prev + (x - r) * poly_value cs x"
proof (induction cs arbitrary: prev)
  case Nil
  then show ?case by simp
next
  case (Cons c cs)
  have "poly_value (lin_mul_from prev (c # cs) r) x
      = (prev - r * c) + x * (c + (x - r) * poly_value cs x)"
    by (simp add: Cons.IH)
  also have "\<dots> = prev + (x - r) * poly_value (c # cs) x"
    by (simp add: algebra_simps)
  finally show ?case .
qed

lemma wsum_nonneg: "0 \<le> M \<Longrightarrow> 0 \<le> wsum M cs"
  by (induction cs) auto

lemma wsum_lin_mul_from:
  "0 \<le> M \<Longrightarrow> wsum M (lin_mul_from prev cs r) \<le> \<bar>prev\<bar> + (M + \<bar>r\<bar>) * wsum M cs"
proof (induction cs arbitrary: prev)
  case Nil
  then show ?case by simp
next
  case (Cons c cs)
  have "wsum M (lin_mul_from prev (c # cs) r) = \<bar>prev - r * c\<bar> + M * wsum M (lin_mul_from c cs r)"
    by simp
  also have "\<dots> \<le> (\<bar>prev\<bar> + \<bar>r\<bar> * \<bar>c\<bar>) + M * (\<bar>c\<bar> + (M + \<bar>r\<bar>) * wsum M cs)"
  proof -
    have "\<bar>prev - r * c\<bar> \<le> \<bar>prev\<bar> + \<bar>r\<bar> * \<bar>c\<bar>"
      using abs_triangle_ineq4 [of prev "r * c"] by (simp add: abs_mult)
    moreover have "M * wsum M (lin_mul_from c cs r) \<le> M * (\<bar>c\<bar> + (M + \<bar>r\<bar>) * wsum M cs)"
      using Cons.IH [OF Cons.prems, of c] Cons.prems by (rule mult_left_mono)
    ultimately show ?thesis by linarith
  qed
  also have "\<dots> = \<bar>prev\<bar> + (M + \<bar>r\<bar>) * wsum M (c # cs)"
    by (simp add: algebra_simps)
  finally show ?case .
qed

lemma abs_nth_le_wsum: "1 \<le> M \<Longrightarrow> t < length cs \<Longrightarrow> \<bar>cs ! t\<bar> \<le> wsum M cs"
proof (induction cs arbitrary: t)
  case Nil
  then show ?case by simp
next
  case (Cons c cs)
  have nn: "0 \<le> wsum M cs" using Cons.prems(1) by (intro wsum_nonneg) simp
  have le: "wsum M cs \<le> M * wsum M cs"
    using mult_right_mono [OF Cons.prems(1) nn] by simp
  show ?case
  proof (cases t)
    case 0
    then show ?thesis using nn le by simp
  next
    case (Suc u)
    then have "\<bar>cs ! u\<bar> \<le> wsum M cs" using Cons by simp
    then show ?thesis using Suc le by simp
  qed
qed

lemma multiplyPolynomials_linear_exact:
  assumes ne: "cs \<noteq> []" and bound: "wsum 1 cs * (1 + \<bar>r\<bar>) \<le> 2 ^ 53"
  shows "multiplyPolynomials (map Fin cs) [Fin (- r), Fin 1] = Inr (map Fin (lin_mul_from 0 cs r))"
proof -
  let ?p = "map Fin cs"
  let ?S = "wsum 1 cs"
  obtain res where r: "multiplyPolynomials ?p [Fin (- r), Fin 1] = Inr res"
    and len: "length res = length ?p + 1"
    and nth: "\<And>t. t \<le> length ?p \<Longrightarrow> res ! t =
       (if t = 0 then jadd (Fin 0) (jmul (?p ! 0) (Fin (- r)))
        else if t < length ?p then jadd (jadd (Fin 0) (jmul (?p ! (t - 1)) (Fin 1))) (jmul (?p ! t) (Fin (- r)))
        else jadd (Fin 0) (jmul (?p ! (t - 1)) (Fin 1)))"
    using multiplyPolynomials_linear [of ?p "Fin (- r)" "Fin 1"] ne by auto
  have S0: "0 \<le> ?S" by (simp add: wsum_nonneg)
  have S1: "?S \<le> 2 ^ 53"
  proof -
    have "?S * 1 \<le> ?S * (1 + \<bar>r\<bar>)" using S0 by (intro mult_left_mono) auto
    then show ?thesis using bound by simp
  qed
  have Sr: "?S + ?S * \<bar>r\<bar> \<le> 2 ^ 53" using bound by (simp add: algebra_simps)
  have c: "\<bar>cs ! t\<bar> \<le> ?S" if "t < length cs" for t
    using abs_nth_le_wsum [of 1 t cs] that by simp
  have cr: "\<bar>cs ! t * r\<bar> \<le> ?S * \<bar>r\<bar>" if "t < length cs" for t
    using mult_right_mono [OF c [OF that], of "\<bar>r\<bar>"] by (simp add: abs_mult)
  have prod: "jmul (Fin (cs ! t)) (Fin (- r)) = Fin (- (cs ! t * r))" if "t < length cs" for t
  proof -
    have "\<bar>cs ! t * (- r)\<bar> \<le> 2 ^ 53" using cr [OF that] Sr S0 by simp
    then show ?thesis using jmul_exact [of "cs ! t" "- r"] by simp
  qed
  have one: "jmul (Fin (cs ! t)) (Fin 1) = Fin (cs ! t)" if "t < length cs" for t
  proof -
    have "\<bar>cs ! t * 1\<bar> \<le> 2 ^ 53" using c [OF that] S1 by simp
    then show ?thesis using jmul_exact [of "cs ! t" 1] by simp
  qed
  have zero: "jadd (Fin 0) (Fin a) = Fin a" if "\<bar>a\<bar> \<le> 2 ^ 53" for a
    using jadd_exact [of 0 a] that by simp
  have entry: "res ! t = Fin (lin_mul_from 0 cs r ! t)" if t: "t \<le> length cs" for t
  proof -
    consider "t = 0" | "0 < t" "t < length cs" | "0 < t" "t = length cs"
      using t by linarith
    then show ?thesis
    proof cases
      case 1
      have "0 < length cs" using ne by simp
      have "res ! 0 = jadd (Fin 0) (jmul (Fin (cs ! 0)) (Fin (- r)))"
        using nth [of 0] \<open>0 < length cs\<close> by simp
      also have "\<dots> = jadd (Fin 0) (Fin (- (cs ! 0 * r)))"
        using prod [OF \<open>0 < length cs\<close>] by simp
      also have "\<dots> = Fin (- (cs ! 0 * r))"
        using cr [OF \<open>0 < length cs\<close>] Sr S0 by (intro zero) simp
      finally show ?thesis
        using 1 \<open>0 < length cs\<close> by (simp add: lin_mul_from_nth)
    next
      case 2
      have u: "t - 1 < length cs" using 2 by simp
      have "res ! t = jadd (jadd (Fin 0) (jmul (Fin (cs ! (t - 1))) (Fin 1)))
                        (jmul (Fin (cs ! t)) (Fin (- r)))"
        using nth [of t] 2 by simp
      also have "\<dots> = jadd (jadd (Fin 0) (Fin (cs ! (t - 1)))) (Fin (- (cs ! t * r)))"
        using one [OF u] prod [OF 2(2)] by simp
      also have "\<dots> = jadd (Fin (cs ! (t - 1))) (Fin (- (cs ! t * r)))"
        using c [OF u] S1 by (subst zero) auto
      also have "\<dots> = Fin (cs ! (t - 1) + - (cs ! t * r))"
      proof (rule jadd_exact)
        have "\<bar>cs ! (t - 1) + - (cs ! t * r)\<bar> \<le> \<bar>cs ! (t - 1)\<bar> + \<bar>cs ! t * r\<bar>"
          by (simp add: abs_triangle_ineq4)
        also have "\<dots> \<le> ?S + ?S * \<bar>r\<bar>" using c [OF u] cr [OF 2(2)] by linarith
        finally show "\<bar>cs ! (t - 1) + - (cs ! t * r)\<bar> \<le> 2 ^ 53" using Sr by linarith
      qed
      finally show ?thesis
        using 2 by (simp add: lin_mul_from_nth mult.commute)
    next
      case 3
      have u: "t - 1 < length cs" using 3 by simp
      have "res ! t = jadd (Fin 0) (jmul (Fin (cs ! (t - 1))) (Fin 1))"
        using nth [of t] 3 u by simp
      also have "\<dots> = jadd (Fin 0) (Fin (cs ! (t - 1)))"
        using one [OF u] by simp
      also have "\<dots> = Fin (cs ! (t - 1))"
        using c [OF u] S1 by (intro zero) auto
      finally show ?thesis
        using 3 by (simp add: lin_mul_from_nth)
    qed
  qed
  have "res = map Fin (lin_mul_from 0 cs r)"
  proof (rule nth_equalityI)
    show "length res = length (map Fin (lin_mul_from 0 cs r))" using len by simp
  next
    fix t assume "t < length res"
    then have "t \<le> length cs" using len by simp
    then show "res ! t = map Fin (lin_mul_from 0 cs r) ! t"
      using entry by simp
  qed
  then show ?thesis using r by simp
qed

lemma magnitude_bound_Nil [simp]: "magnitude_bound M [] = 1"
  by (simp add: magnitude_bound_def)

lemma magnitude_bound_Cons [simp]:
  "magnitude_bound M (r # rs) = (M + \<bar>r\<bar>) * magnitude_bound M rs"
  by (simp add: magnitude_bound_def)

lemma magnitude_bound_ge_1: "1 \<le> M \<Longrightarrow> 1 \<le> magnitude_bound M rs"
proof (induction rs)
  case Nil
  then show ?case by simp
next
  case (Cons r rs)
  have "1 * 1 \<le> (M + \<bar>r\<bar>) * magnitude_bound M rs"
    using Cons by (intro mult_mono) auto
  then show ?case by simp
qed

lemma magnitude_bound_mono:
  "0 \<le> M \<Longrightarrow> M \<le> N \<Longrightarrow> magnitude_bound M rs \<le> magnitude_bound N rs \<and> 0 \<le> magnitude_bound M rs"
proof (induction rs)
  case Nil
  then show ?case by simp
next
  case (Cons r rs)
  then have "(M + \<bar>r\<bar>) * magnitude_bound M rs \<le> (N + \<bar>r\<bar>) * magnitude_bound N rs"
    by (intro mult_mono) auto
  moreover have "0 \<le> (M + \<bar>r\<bar>) * magnitude_bound M rs"
    using Cons by (intro mult_nonneg_nonneg) auto
  ultimately show ?case by simp
qed

lemma power_le_magnitude_bound: "0 \<le> M \<Longrightarrow> M ^ length rs \<le> magnitude_bound M rs"
proof (induction rs)
  case Nil
  then show ?case by simp
next
  case (Cons r rs)
  then have "M * M ^ length rs \<le> (M + \<bar>r\<bar>) * magnitude_bound M rs"
    by (intro mult_mono) auto
  then show ?case by simp
qed

lemma length_fold_lin_mul:
  "length (fold (\<lambda>r cs. lin_mul_from 0 cs r) rs cs) = length cs + length rs"
  by (induction rs arbitrary: cs) auto

lemma poly_value_fold_lin_mul:
  "poly_value (fold (\<lambda>r cs. lin_mul_from 0 cs r) rs cs) x =
     poly_value cs x * prod_list (map (\<lambda>r. x - r) rs)"
  by (induction rs arbitrary: cs) (auto simp: poly_value_lin_mul_from algebra_simps)

lemma wsum_fold_lin_mul:
  "0 \<le> M \<Longrightarrow>
   wsum M (fold (\<lambda>r cs. lin_mul_from 0 cs r) rs cs) \<le> wsum M cs * magnitude_bound M rs"
proof (induction rs arbitrary: cs)
  case Nil
  then show ?case by simp
next
  case (Cons r rs)
  have mb: "0 \<le> magnitude_bound M rs"
    using magnitude_bound_mono [OF Cons.prems order_refl] by simp
  have "wsum M (fold (\<lambda>r cs. lin_mul_from 0 cs r) (r # rs) cs)
      \<le> wsum M (lin_mul_from 0 cs r) * magnitude_bound M rs"
    using Cons.IH [OF Cons.prems, of "lin_mul_from 0 cs r"] by simp
  also have "\<dots> \<le> ((M + \<bar>r\<bar>) * wsum M cs) * magnitude_bound M rs"
    using wsum_lin_mul_from [OF Cons.prems, of 0 cs r] mb by (intro mult_right_mono) auto
  finally show ?case by (simp add: mult_ac)
qed

lemma build_loop_exact:
  "cs \<noteq> [] \<Longrightarrow> wsum 1 cs * magnitude_bound 1 rs \<le> 2 ^ 53 \<Longrightarrow>
   build_loop (map Fin cs) (map Fin rs) =
     Inr (map Fin (fold (\<lambda>r cs. lin_mul_from 0 cs r) rs cs))"
proof (induction rs arbitrary: cs)
  case Nil
  then show ?case by simp
next
  case (Cons r rs)
  let ?cs' = "lin_mul_from 0 cs r"
  have S0: "0 \<le> wsum 1 cs" by (simp add: wsum_nonneg)
  have mb1: "1 \<le> magnitude_bound 1 rs" by (simp add: magnitude_bound_ge_1)
  have b: "wsum 1 cs * (1 + \<bar>r\<bar>) * magnitude_bound 1 rs \<le> 2 ^ 53"
    using Cons.prems(2) by (simp add: mult_ac)
  have "wsum 1 cs * (1 + \<bar>r\<bar>) * 1 \<le> wsum 1 cs * (1 + \<bar>r\<bar>) * magnitude_bound 1 rs"
    using S0 mb1 by (intro mult_left_mono) auto
  then have one: "wsum 1 cs * (1 + \<bar>r\<bar>) \<le> 2 ^ 53" using b by simp
  have step: "multiplyPolynomials (map Fin cs) [Fin (- r), Fin 1] = Inr (map Fin ?cs')"
    using Cons.prems(1) one by (rule multiplyPolynomials_linear_exact)
  have ne: "?cs' \<noteq> []" by (cases cs) auto
  have "wsum 1 ?cs' \<le> (1 + \<bar>r\<bar>) * wsum 1 cs"
    using wsum_lin_mul_from [of 1 0 cs r] by simp
  then have "wsum 1 ?cs' * magnitude_bound 1 rs \<le> ((1 + \<bar>r\<bar>) * wsum 1 cs) * magnitude_bound 1 rs"
    using mb1 by (intro mult_right_mono) auto
  then have "wsum 1 ?cs' * magnitude_bound 1 rs \<le> 2 ^ 53"
    using b by (simp add: mult_ac)
  from Cons.IH [OF ne this] show ?case using step by simp
qed

lemma buildPolynomial_exact:
  assumes "rs \<noteq> []" and "magnitude_bound 1 rs \<le> 2 ^ 53"
  shows "buildPolynomial (map Fin rs) = Inr (map Fin (expand rs))"
  using build_loop_exact [of "[1]" rs] assms by (simp add: buildPolynomial_def expand_def)

lemma length_expand: "length (expand rs) = length rs + 1"
  by (simp add: expand_def length_fold_lin_mul)

lemma poly_value_expand: "poly_value (expand rs) x = prod_list (map (\<lambda>r. x - r) rs)"
  by (simp add: expand_def poly_value_fold_lin_mul)

lemma wsum_expand: "0 \<le> M \<Longrightarrow> wsum M (expand rs) \<le> magnitude_bound M rs"
  using wsum_fold_lin_mul [of M rs "[1]"] by (simp add: expand_def)

lemma lin_mul_from_ne [simp]: "lin_mul_from prev cs r \<noteq> []"
  by (cases cs) auto

lemma last_lin_mul_from: "last (lin_mul_from prev cs r) = last (prev # cs)"
  by (induction cs arbitrary: prev) auto

lemma last_fold_lin_mul:
  "cs \<noteq> [] \<Longrightarrow> last (fold (\<lambda>r cs. lin_mul_from 0 cs r) rs cs) = last cs"
proof (induction rs arbitrary: cs)
  case Nil
  then show ?case by simp
next
  case (Cons r rs)
  have "lin_mul_from 0 cs r \<noteq> []" by (cases cs) auto
  from Cons.IH [OF this] show ?case using Cons.prems by (simp add: last_lin_mul_from)
qed

lemma last_expand: "last (expand rs) = 1"
  by (simp add: expand_def last_fold_lin_mul)

lemma lin_mul_from_twice_nth:
  assumes t: "t \<le> length cs + 1"
  defines "c \<equiv> \<lambda>k. if k < length cs then cs ! k else 0"
  shows "lin_mul_from 0 (lin_mul_from 0 cs a) b ! t =
      (if t < 2 then 0 else c (t - 2)) - (a + b) * (if t = 0 then 0 else c (t - 1)) + a * b * c t"
proof -
  let ?A = "lin_mul_from 0 cs a"
  have inner: "?A ! k = (if k = 0 then 0 else c (k - 1)) - a * c k" if "k \<le> length cs" for k
    using lin_mul_from_nth [OF that, of 0 a] that by (auto simp: c_def)
  have outer: "lin_mul_from 0 ?A b ! t =
      (if t = 0 then 0 else ?A ! (t - 1)) - b * (if t \<le> length cs then ?A ! t else 0)"
    using lin_mul_from_nth [of t ?A 0 b] t by (simp add: less_Suc_eq_le)
  show ?thesis
  proof (cases t)
    case 0
    have "lin_mul_from 0 ?A b ! t = - b * (- a * c 0)"
      using 0 outer inner [of 0] by simp
    then show ?thesis using 0 by simp
  next
    case (Suc v)
    then have v: "v \<le> length cs" using t by simp
    show ?thesis
    proof (cases "t \<le> length cs")
      case True
      have "lin_mul_from 0 ?A b ! t =
          ((if v = 0 then 0 else c (v - 1)) - a * c v) - b * (c v - a * c t)"
        using Suc True outer inner [OF v] inner [OF True] by simp
      also have "\<dots> = (if t < 2 then 0 else c (t - 2)) - (a + b) * c v + a * b * c t"
        using Suc by (cases v) (simp_all add: algebra_simps)
      finally show ?thesis using Suc by simp
    next
      case False
      then have ct: "c t = 0" and cv: "c v = 0" using Suc t by (simp_all add: c_def)
      have "lin_mul_from 0 ?A b ! t = (if v = 0 then 0 else c (v - 1)) - a * c v"
        using Suc False outer inner [OF v] by simp
      also have "\<dots> = (if t < 2 then 0 else c (t - 2)) - (a + b) * c v + a * b * c t"
        using Suc ct cv by (cases v) simp_all
      finally show ?thesis using Suc by simp
    qed
  qed
qed

lemma lin_mul_from_commute:
  "lin_mul_from 0 (lin_mul_from 0 cs r) s = lin_mul_from 0 (lin_mul_from 0 cs s) r"
proof (rule nth_equalityI)
  show "length (lin_mul_from 0 (lin_mul_from 0 cs r) s) = length (lin_mul_from 0 (lin_mul_from 0 cs s) r)"
    by simp
next
  fix t assume "t < length (lin_mul_from 0 (lin_mul_from 0 cs r) s)"
  then have t: "t \<le> length cs + 1" by simp
  show "lin_mul_from 0 (lin_mul_from 0 cs r) s ! t = lin_mul_from 0 (lin_mul_from 0 cs s) r ! t"
    by (simp only: lin_mul_from_twice_nth [OF t] add.commute mult.commute)
qed

lemma expand_permutation: "mset rs = mset rs' \<Longrightarrow> expand rs = expand rs'"
proof -
  assume m: "mset rs = mset rs'"
  have "fold (\<lambda>r cs. lin_mul_from 0 cs r) rs = fold (\<lambda>r cs. lin_mul_from 0 cs r) rs'"
  proof (rule fold_multiset_equiv)
    fix x y
    show "(\<lambda>cs. lin_mul_from 0 cs x) \<circ> (\<lambda>cs. lin_mul_from 0 cs y)
        = (\<lambda>cs. lin_mul_from 0 cs y) \<circ> (\<lambda>cs. lin_mul_from 0 cs x)"
      by (rule ext) (simp add: lin_mul_from_commute)
  qed (rule m)
  then show ?thesis by (simp add: expand_def)
qed

section \<open>Exact evaluation\<close>

lemma eval_loop_exact:
  assumes M: "1 \<le> M" and x: "\<bar>x\<bar> \<le> M"
  shows "cs = [] \<or> (pw = Fin p \<and> \<bar>p\<bar> * M ^ (length cs - 1) \<le> 2 ^ 53) \<Longrightarrow>
    \<bar>res\<bar> + \<bar>p\<bar> * wsum M cs \<le> 2 ^ 53 \<Longrightarrow>
    eval_loop (map Fin cs) (Fin x) (Fin res) pw = Fin (res + p * poly_value cs x)"
proof (induction cs arbitrary: res pw p)
  case Nil
  then show ?case by simp
next
  case (Cons c cs)
  have M0: "0 \<le> M" using M by simp
  have W0: "0 \<le> wsum M cs" using M0 by (rule wsum_nonneg)
  have pw: "pw = Fin p" and pb: "\<bar>p\<bar> * M ^ length cs \<le> 2 ^ 53"
    using Cons.prems(1) by simp_all
  have tail0: "0 \<le> \<bar>p\<bar> * (M * wsum M cs)"
    using M0 W0 by (intro mult_nonneg_nonneg) auto
  have total: "\<bar>res\<bar> + \<bar>p\<bar> * \<bar>c\<bar> + \<bar>p\<bar> * (M * wsum M cs) \<le> 2 ^ 53"
    using Cons.prems(2) by (simp add: algebra_simps)
  have cp: "\<bar>c * p\<bar> \<le> 2 ^ 53"
    using total tail0 by (simp add: abs_mult mult.commute)
  have sum: "\<bar>res + c * p\<bar> \<le> \<bar>res\<bar> + \<bar>p\<bar> * \<bar>c\<bar>"
    using abs_triangle_ineq [of res "c * p"] by (simp add: abs_mult mult.commute)
  have sb: "\<bar>res + c * p\<bar> \<le> 2 ^ 53" using sum total tail0 by linarith
  have step: "eval_loop (map Fin (c # cs)) (Fin x) (Fin res) pw =
      eval_loop (map Fin cs) (Fin x) (Fin (res + c * p)) (jmul (Fin p) (Fin x))"
    using pw jmul_exact [OF cp] jadd_exact [OF sb] by simp
  have px: "\<bar>p * x\<bar> \<le> \<bar>p\<bar> * M"
    using x by (simp add: abs_mult mult_left_mono)
  have first: "cs = [] \<or> (jmul (Fin p) (Fin x) = Fin (p * x) \<and>
      \<bar>p * x\<bar> * M ^ (length cs - 1) \<le> 2 ^ 53)"
  proof (cases cs)
    case Nil
    then show ?thesis by simp
  next
    case (Cons d ds)
    have len: "length cs = Suc (length ds)" using Cons by simp
    have "\<bar>p * x\<bar> * M ^ length ds \<le> (\<bar>p\<bar> * M) * M ^ length ds"
      using px M0 by (intro mult_right_mono) auto
    then have a: "\<bar>p * x\<bar> * M ^ length ds \<le> 2 ^ 53"
      using pb len by (simp add: mult_ac)
    have "1 \<le> M ^ length ds" using M by simp
    then have "\<bar>p * x\<bar> * 1 \<le> \<bar>p * x\<bar> * M ^ length ds"
      by (intro mult_left_mono) auto
    then have "\<bar>p * x\<bar> \<le> 2 ^ 53" using a by simp
    then show ?thesis using a len jmul_exact [of p x] by simp
  qed
  have "\<bar>p * x\<bar> * wsum M cs \<le> (\<bar>p\<bar> * M) * wsum M cs"
    using px W0 by (rule mult_right_mono)
  then have second: "\<bar>res + c * p\<bar> + \<bar>p * x\<bar> * wsum M cs \<le> 2 ^ 53"
    using sum total by (simp add: mult_ac)
  have "eval_loop (map Fin cs) (Fin x) (Fin (res + c * p)) (jmul (Fin p) (Fin x)) =
      Fin ((res + c * p) + (p * x) * poly_value cs x)"
    using first second by (rule Cons.IH)
  then show ?case using step by (simp add: algebra_simps)
qed

lemma evaluatePolynomial_exact:
  assumes "1 \<le> M" and "\<bar>x\<bar> \<le> M" and "M ^ (length cs - 1) \<le> 2 ^ 53" and "wsum M cs \<le> 2 ^ 53"
  shows "evaluatePolynomial (map Fin cs) (Fin x) = Fin (poly_value cs x)"
  using eval_loop_exact [OF assms(1,2), of cs "Fin 1" 1 0] assms(3,4)
  by (simp add: evaluatePolynomial_def)

lemma evaluatePolynomial_expand:
  assumes "magnitude_bound (max 1 \<bar>x\<bar>) rs \<le> 2 ^ 53"
  shows "evaluatePolynomial (map Fin (expand rs)) (Fin x) = Fin (prod_list (map (\<lambda>r. x - r) rs))"
proof -
  let ?M = "max 1 \<bar>x\<bar>"
  have M: "1 \<le> ?M" "\<bar>x\<bar> \<le> ?M" "0 \<le> ?M" by simp_all
  have "?M ^ length rs \<le> magnitude_bound ?M rs"
    using M(3) by (rule power_le_magnitude_bound)
  then have p: "?M ^ (length (expand rs) - 1) \<le> 2 ^ 53"
    using assms by (simp add: length_expand)
  have w: "wsum ?M (expand rs) \<le> 2 ^ 53"
    using wsum_expand [OF M(3), of rs] assms by linarith
  show ?thesis
    using evaluatePolynomial_exact [OF M(1,2) p w] by (simp add: poly_value_expand)
qed

lemma magnitude_bound_1_le:
  "magnitude_bound 1 rs \<le> magnitude_bound (max 1 \<bar>x\<bar>) rs"
  using magnitude_bound_mono [of 1 "max 1 \<bar>x\<bar>" rs] by simp

lemma prod_list_root_zero: "x \<in> set rs \<Longrightarrow> prod_list (map (\<lambda>r. x - r) rs) = (0 :: int)"
  by (induction rs) auto

section \<open>Permutations and the tolerance\<close>

lemma magnitude_bound_mset:
  "mset rs' = mset rs \<Longrightarrow> magnitude_bound M rs' = magnitude_bound M rs"
proof -
  assume "mset rs' = mset rs"
  then have "mset (map (\<lambda>r. M + \<bar>r\<bar>) rs') = mset (map (\<lambda>r. M + \<bar>r\<bar>) rs)" by simp
  then have "prod_mset (mset (map (\<lambda>r. M + \<bar>r\<bar>) rs')) = prod_mset (mset (map (\<lambda>r. M + \<bar>r\<bar>) rs))"
    by (rule arg_cong)
  then show ?thesis by (simp only: prod_mset_prod_list magnitude_bound_def)
qed



section \<open>parseInt on digit strings\<close>





lemma positional_value_Nil [simp]: "positional_value b [] = 0"
  by (simp add: positional_value_def)







section \<open>Every rounded value is a double\<close>

lemma round_mag_cases:
  assumes "0 \<le> n"
  shows "\<exists>m e. 0 \<le> m \<and> m \<le> 2 ^ 53 \<and> round_mag n = m * 2 ^ e"
proof (cases "n < 2 ^ 53")
  case True
  then have "round_mag n = n * 2 ^ 0" by (simp add: round_mag_small)
  then show ?thesis using assms True by (intro exI [of _ n] exI [of _ 0]) simp
next
  case False
  then have q: "2 ^ 52 \<le> n div 2 ^ expo n" "n div 2 ^ expo n < 2 ^ 53"
    using expo_bounds [of n] by simp_all
  have "round_mag n = (n div 2 ^ expo n) * 2 ^ expo n \<or>
        round_mag n = (n div 2 ^ expo n + 1) * 2 ^ expo n"
    by (simp add: round_mag_def Let_def)
  then show ?thesis
  proof
    assume "round_mag n = (n div 2 ^ expo n) * 2 ^ expo n"
    then show ?thesis using q by (intro exI [of _ "n div 2 ^ expo n"] exI [of _ "expo n"]) simp
  next
    assume "round_mag n = (n div 2 ^ expo n + 1) * 2 ^ expo n"
    then show ?thesis using q by (intro exI [of _ "n div 2 ^ expo n + 1"] exI [of _ "expo n"]) simp
  qed
qed

lemma fl_scaled_le:
  assumes "0 \<le> m" and "m \<le> 2 ^ 53" and "m * 2 ^ e < 2 ^ 1024"
  shows "fl (m * 2 ^ e) = Fin (m * 2 ^ e)"
proof (cases "m = 2 ^ 53")
  case True
  have "fl (1 * 2 ^ (53 + e)) = Fin (1 * 2 ^ (53 + e))"
    using assms(3) True by (intro fl_scaled) (simp_all add: power_add)
  then show ?thesis using True by (simp add: power_add)
next
  case False
  then show ?thesis using assms by (intro fl_scaled) simp_all
qed

lemma fl_representable: "fl n = Fin v \<Longrightarrow> representable v"
proof -
  assume r: "fl n = Fin v"
  obtain m e where m: "0 \<le> m" "m \<le> 2 ^ 53" "round_mag \<bar>n\<bar> = m * 2 ^ e"
    using round_mag_cases [of "\<bar>n\<bar>"] by auto
  have small: "m * 2 ^ e < 2 ^ 1024" and v: "v = sgn n * (m * 2 ^ e)"
    using r m(3) by (auto simp: fl_def Let_def split: if_splits)
  have pos: "fl (m * 2 ^ e) = Fin (m * 2 ^ e)" using m(1,2) small by (rule fl_scaled_le)
  consider "n = 0" | "0 < n" | "n < 0" by linarith
  then have "fl v = Fin v"
  proof cases
    case 1
    then show ?thesis using v by simp
  next
    case 2
    then show ?thesis using v pos by simp
  next
    case 3
    then have "v = - (m * 2 ^ e)" using v by simp
    then show ?thesis using pos by (simp add: fl_neg)
  qed
  then show ?thesis by (simp add: representable_def)
qed

lemma convertToDecimal_representable:
  "convertToDecimal v b = Inr (Fin r) \<Longrightarrow> representable r"
proof -
  assume a: "convertToDecimal v b = Inr (Fin r)"
  then obtain s where "parseInt s b = Fin r"
    by (auto simp: convertToDecimal_def Let_def split: js_value.splits if_splits)
  then obtain n where "fl n = Fin r"
    by (auto simp: parseInt_def Let_def split: if_splits)
  then show ?thesis by (rule fl_representable)
qed

section \<open>A coefficient list is determined by its values\<close>

lemma poly_value_zero_all:
  "(\<forall>x. N \<le> x \<longrightarrow> poly_value es x = 0) \<Longrightarrow> \<forall>e\<in>set es. e = 0"
proof (induction es arbitrary: N)
  case Nil
  then show ?case by simp
next
  case (Cons e es)
  define x where "x = max N (\<bar>e\<bar> + 1)"
  have x: "N \<le> x" "\<bar>e\<bar> < x" "0 < x" by (simp_all add: x_def)
  have "e + x * poly_value es x = 0" using Cons.prems x(1) by simp
  then have "e = x * (- poly_value es x)" by (simp add: algebra_simps)
  then have "x dvd e" by (rule dvdI)
  then have e0: "e = 0"
    using x(2,3) zdvd_not_zless [of "\<bar>e\<bar>" x] by (cases "e = 0") auto
  have "poly_value es y = 0" if "max N 1 \<le> y" for y
  proof -
    have "e + y * poly_value es y = 0" using Cons.prems that by simp
    then show ?thesis using e0 that by simp
  qed
  then have "\<forall>e\<in>set es. e = 0" using Cons.IH [of "max N 1"] by blast
  then show ?case using e0 by simp
qed

lemma poly_value_diff:
  "length cs = length ds \<Longrightarrow>
   poly_value (map2 (-) cs ds) x = poly_value cs x - poly_value ds x"
proof (induction cs ds rule: list_induct2)
  case Nil
  then show ?case by simp
next
  case (Cons c cs d ds)
  have "poly_value (map2 (-) (c # cs) (d # ds)) x
      = (c - d) + x * (poly_value cs x - poly_value ds x)"
    by (simp add: Cons.IH)
  then show ?case by (simp add: algebra_simps)
qed

lemma poly_value_unique:
  assumes "length cs = length ds" and "\<forall>x. poly_value cs x = poly_value ds x"
  shows "cs = ds"
proof (rule nth_equalityI)
  show "length cs = length ds" by (rule assms(1))
next
  fix i assume i: "i < length cs"
  have "\<forall>x. 0 \<le> x \<longrightarrow> poly_value (map2 (-) cs ds) x = 0"
    using assms by (simp add: poly_value_diff)
  then have z: "\<forall>e\<in>set (map2 (-) cs ds). e = 0" by (rule poly_value_zero_all)
  have "map2 (-) cs ds ! i \<in> set (map2 (-) cs ds)"
    using i assms(1) by (intro nth_mem) simp
  then have "map2 (-) cs ds ! i = 0" using z by blast
  then show "cs ! i = ds ! i" using i assms(1) by simp
qed

section \<open>Exact sums of products\<close>







section \<open>The claims\<close>

text \<open>
  C1 (amended). For the roots \<open>[4, 7, 12]\<close>, \<open>buildPolynomial\<close> returns \<open>[-336, 160, -23, 1]\<close>,
  in ascending order, the expansion of \<open>(x - 4)(x - 7)(x - 12)\<close>; and for every odd number
  of roots, as for every non-empty root list, the top coefficient is \<open>1\<close>.
\<close>

theorem buildPolynomial_4_7_12:
  "buildPolynomial [Fin 4, Fin 7, Fin 12] = Inr [Fin (- 336), Fin 160, Fin (- 23), Fin 1] \<and>
   poly_value [- 336, 160, - 23, 1] x = (x - 4) * (x - 7) * (x - 12) \<and>
   (odd (length roots) \<longrightarrow> (\<exists>cs. buildPolynomial roots = Inr cs \<and> last cs = Fin 1))"
proof -
  have "buildPolynomial [Fin 4, Fin 7, Fin 12] = Inr [Fin (- 336), Fin 160, Fin (- 23), Fin 1]"
    by code_simp
  moreover have "poly_value [- 336, 160, - 23, 1] x = (x - 4) * (x - 7) * (x - 12)"
    by (simp add: algebra_simps)
  moreover have "\<exists>cs. buildPolynomial roots = Inr cs \<and> last cs = Fin 1" if "odd (length roots)"
  proof -
    have "roots \<noteq> []" using that by auto
    then show ?thesis using buildPolynomial_shape [of roots] by blast
  qed
  ultimately show ?thesis by blast
qed

theorem buildPolynomial_4_7_12_witness:
  "odd (length [Fin 5, Fin 6, Fin 8]) \<and>
   (\<exists>cs. buildPolynomial [Fin 5, Fin 6, Fin 8] = Inr cs \<and> last cs = Fin 1)"
  using buildPolynomial_4_7_12 [where roots = "[Fin 5, Fin 6, Fin 8]"] by simp

text \<open>
  The claim as stated fails: the coefficients for \<open>[4, 7, 12]\<close> are not
  \<open>[336, -172, 23, -1]\<close>, and the top coefficient is not \<open>-1\<close>.
\<close>

theorem buildPolynomial_4_7_12_counterexample:
  "buildPolynomial [Fin 4, Fin 7, Fin 12] \<noteq> Inr [Fin 336, Fin (- 172), Fin 23, Fin (- 1)] \<and>
   map_sum id last (buildPolynomial [Fin 4, Fin 7, Fin 12]) \<noteq> Inr (Fin (- 1))"
  by code_simp

text \<open>
  C2 (amended). For every non-empty list of \<open>k\<close> roots, \<open>buildPolynomial\<close> returns a
  coefficient sequence of length \<open>k + 1\<close> whose last element is exactly 1. When the roots
  are integers \<open>r\<close> whose factors \<open>1 + \<bar>r\<bar>\<close> have a product of at most \<open>2 ^ 53\<close>, the
  coefficients are integers \<open>cs\<close> with \<open>\<Sum> cs[i] * x^i = \<Prod> (x - r)\<close> for every \<open>x\<close>, and the
  only such sequence of that length: the unique monic polynomial whose roots are the input
  multiset, with multiplicity.
\<close>

theorem buildPolynomial_monic:
  "(roots \<noteq> [] \<longrightarrow>
     (\<exists>cs. buildPolynomial roots = Inr cs \<and> length cs = length roots + 1 \<and> last cs = Fin 1)) \<and>
   (rs \<noteq> [] \<and> magnitude_bound 1 rs \<le> 2 ^ 53 \<longrightarrow>
     (\<exists>cs. buildPolynomial (map Fin rs) = Inr (map Fin cs) \<and> length cs = length rs + 1 \<and>
        last cs = 1 \<and> (\<forall>x. poly_value cs x = prod_list (map (\<lambda>r. x - r) rs)) \<and>
        (\<forall>ds. length ds = length rs + 1 \<and>
           (\<forall>x. poly_value ds x = prod_list (map (\<lambda>r. x - r) rs)) \<longrightarrow> ds = cs)))"
proof -
  have u: "ds = expand rs"
    if "length ds = length rs + 1" "\<forall>x. poly_value ds x = prod_list (map (\<lambda>r. x - r) rs)" for ds
    using that poly_value_unique [of ds "expand rs"] by (simp add: length_expand poly_value_expand)
  have "\<exists>cs. buildPolynomial (map Fin rs) = Inr (map Fin cs) \<and> length cs = length rs + 1 \<and>
        last cs = 1 \<and> (\<forall>x. poly_value cs x = prod_list (map (\<lambda>r. x - r) rs)) \<and>
        (\<forall>ds. length ds = length rs + 1 \<and>
           (\<forall>x. poly_value ds x = prod_list (map (\<lambda>r. x - r) rs)) \<longrightarrow> ds = cs)"
    if "rs \<noteq> []" "magnitude_bound 1 rs \<le> 2 ^ 53"
    using buildPolynomial_exact [OF that] length_expand [of rs] last_expand [of rs]
      poly_value_expand [of rs] u by blast
  then show ?thesis using buildPolynomial_shape [of roots] by blast
qed

theorem buildPolynomial_monic_witness:
  "[Fin 4, Fin 7, Fin 12] \<noteq> [] \<and>
   (\<exists>cs. buildPolynomial [Fin 4, Fin 7, Fin 12] = Inr cs \<and>
      length cs = length [Fin 4, Fin 7, Fin 12 :: jsnum] + 1 \<and> last cs = Fin 1) \<and>
   [4, 7, 12 :: int] \<noteq> [] \<and> magnitude_bound 1 [4, 7, 12] \<le> 2 ^ 53 \<and>
   (\<exists>cs. buildPolynomial (map Fin [4, 7, 12]) = Inr (map Fin cs) \<and>
      length cs = length [4, 7, 12 :: int] + 1 \<and> last cs = 1 \<and>
      (\<forall>x. poly_value cs x = prod_list (map (\<lambda>r. x - r) [4, 7, 12])))"
proof -
  have h: "magnitude_bound 1 [4, 7, 12] \<le> 2 ^ 53" by simp
  show ?thesis
    using h buildPolynomial_monic [of "[Fin 4, Fin 7, Fin 12]" "[4, 7, 12]"] by auto
qed

text \<open>
  The claim as stated fails for large roots: for the roots \<open>2 ^ 53\<close> and \<open>1\<close> the
  coefficient \<open>-(2 ^ 53 + 1)\<close> is rounded to \<open>-(2 ^ 53)\<close>, and the polynomial returned has
  the value 1, not 0, at the root 1.
\<close>

theorem buildPolynomial_monic_counterexample:
  "buildPolynomial [Fin (2 ^ 53), Fin 1] = Inr [Fin (2 ^ 53), Fin (- (2 ^ 53)), Fin 1] \<and>
   poly_value [2 ^ 53, - (2 ^ 53), 1] 1 = 1"
  by code_simp

text \<open>
  C3 (amended). For every non-empty list of integer roots whose factors \<open>1 + \<bar>r\<bar>\<close> have a
  product of at most \<open>2 ^ 53\<close>, and every permutation of that list, \<open>buildPolynomial\<close> yields
  identical coefficient sequences for the two lists.
\<close>

theorem buildPolynomial_permutation:
  assumes "rs \<noteq> []" and "mset rs' = mset rs" and "magnitude_bound 1 rs \<le> 2 ^ 53"
  shows "buildPolynomial (map Fin rs') = buildPolynomial (map Fin rs)"
proof -
  have ne: "rs' \<noteq> []" using assms(1,2) by auto
  have b: "magnitude_bound 1 rs' \<le> 2 ^ 53"
    using magnitude_bound_mset [OF assms(2), of 1] assms(3) by simp
  have "expand rs' = expand rs" using assms(2) by (rule expand_permutation)
  then show ?thesis
    using buildPolynomial_exact [OF ne b] buildPolynomial_exact [OF assms(1,3)] by simp
qed

theorem buildPolynomial_permutation_witness:
  "[4, 7, 12 :: int] \<noteq> [] \<and> mset [12, 4, 7 :: int] = mset [4, 7, 12] \<and>
   magnitude_bound 1 [4, 7, 12] \<le> 2 ^ 53 \<and>
   buildPolynomial (map Fin [12, 4, 7]) = buildPolynomial (map Fin [4, 7, 12])"
proof -
  have h1: "[4, 7, 12 :: int] \<noteq> []" by simp
  have h2: "mset [12, 4, 7 :: int] = mset [4, 7, 12]" by simp
  have h3: "magnitude_bound 1 [4, 7, 12] \<le> 2 ^ 53" by simp
  show ?thesis using h1 h2 h3 buildPolynomial_permutation [OF h1 h2 h3] by simp
qed

text \<open>
  The claim as stated fails for large roots: the roots \<open>2 ^ 53, 1, 1\<close> and their
  permutation \<open>1, 1, 2 ^ 53\<close> give different coefficients of \<open>x^2\<close>.
\<close>

theorem buildPolynomial_permutation_counterexample:
  "mset [Fin 1, Fin 1, Fin (2 ^ 53)] = mset [Fin (2 ^ 53), Fin 1, Fin 1] \<and>
   buildPolynomial [Fin (2 ^ 53), Fin 1, Fin 1] =
     Inr [Fin (- (2 ^ 53)), Fin (2 ^ 54), Fin (- (2 ^ 53)), Fin 1] \<and>
   buildPolynomial [Fin 1, Fin 1, Fin (2 ^ 53)] =
     Inr [Fin (- (2 ^ 53)), Fin (2 ^ 54), Fin (- (2 ^ 53) - 2), Fin 1]"
proof -
  have "mset [Fin 1, Fin 1, Fin (2 ^ 53)] = mset [Fin (2 ^ 53), Fin 1, Fin 1]" by simp
  moreover have "buildPolynomial [Fin (2 ^ 53), Fin 1, Fin 1] =
     Inr [Fin (- (2 ^ 53)), Fin (2 ^ 54), Fin (- (2 ^ 53)), Fin 1]" by code_simp
  moreover have "buildPolynomial [Fin 1, Fin 1, Fin (2 ^ 53)] =
     Inr [Fin (- (2 ^ 53)), Fin (2 ^ 54), Fin (- (2 ^ 53) - 2), Fin 1]" by code_simp
  ultimately show ?thesis by blast
qed

text \<open>
  C4 (amended). For every list of integer roots and every root \<open>x\<close> of the list such that
  the factors \<open>max 1 \<bar>x\<bar> + \<bar>r\<bar>\<close> have a product of at most \<open>2 ^ 53\<close>, evaluating the built
  polynomial (via \<open>evaluatePolynomial\<close>) at \<open>x\<close> yields exactly 0.
\<close>

theorem built_polynomial_zero_at_root:
  assumes "x \<in> set rs" and "magnitude_bound (max 1 \<bar>x\<bar>) rs \<le> 2 ^ 53"
  shows "\<exists>cs. buildPolynomial (map Fin rs) = Inr cs \<and> evaluatePolynomial cs (Fin x) = Fin 0"
proof -
  have ne: "rs \<noteq> []" using assms(1) by auto
  have b: "magnitude_bound 1 rs \<le> 2 ^ 53"
    using magnitude_bound_1_le [of rs x] assms(2) by linarith
  have "evaluatePolynomial (map Fin (expand rs)) (Fin x) = Fin 0"
    using evaluatePolynomial_expand [OF assms(2)] prod_list_root_zero [OF assms(1)] by simp
  then show ?thesis using buildPolynomial_exact [OF ne b] by simp
qed

theorem built_polynomial_zero_at_root_witness:
  "(7 :: int) \<in> set [4, 7, 12] \<and> magnitude_bound (max 1 \<bar>7\<bar>) [4, 7, 12] \<le> 2 ^ 53 \<and>
   (\<exists>cs. buildPolynomial (map Fin [4, 7, 12]) = Inr cs \<and> evaluatePolynomial cs (Fin 7) = Fin 0)"
proof -
  have h1: "(7 :: int) \<in> set [4, 7, 12]" by simp
  have h2: "magnitude_bound (max 1 \<bar>7\<bar>) [4, 7, 12] \<le> 2 ^ 53" by simp
  show ?thesis using h1 h2 built_polynomial_zero_at_root [OF h1 h2] by simp
qed

text \<open>
  The claim as stated fails for large roots: the polynomial built from the roots \<open>2 ^ 53\<close>
  and \<open>1\<close> evaluates to 1 at its root 1.
\<close>

theorem built_polynomial_zero_at_root_counterexample:
  "buildPolynomial [Fin (2 ^ 53), Fin 1] = Inr [Fin (2 ^ 53), Fin (- (2 ^ 53)), Fin 1] \<and>
   evaluatePolynomial [Fin (2 ^ 53), Fin (- (2 ^ 53)), Fin 1] (Fin 1) = Fin 1"
  by code_simp

text \<open>
  C5 (the code departs from the claim). The value \<open>1g\<close> is not a base 16 digit string, and
  \<open>convertToDecimal\<close> returns 1, the value of its legal prefix, where the claim has it
  fail, and \<open>isValidNumber\<close> accepts it; \<open>g\<close> alone and the empty string do fail.
\<close>

theorem convertToDecimal_accepts_legal_prefix:
  "\<not> is_radix_digit 16 CHR ''g'' \<and>
   convertToDecimal (Str ''1g'') 16 = Inr (Fin 1) \<and>
   isValidNumber (Str ''1g'') 16 \<and>
   convertToDecimal (Str ''g'') 16 = Inl InvalidValue \<and>
   convertToDecimal (Str '''') 16 = Inl ValueMustBeNonEmptyString"
  by code_simp







text \<open>
  C8. \<open>convertToDecimal\<close> fails with the unsupported-base error (the spec's \<open>InvalidBase\<close>)
  exactly when the integer base is outside \<open>[2, 16]\<close>, whatever the value; so it does for
  base 17.
\<close>

theorem convertToDecimal_base_error:
  "(convertToDecimal v base = Inl BaseNotSupported) = (base < 2 \<or> 16 < base) \<and>
   convertToDecimal v 17 = Inl BaseNotSupported"
  by (auto simp: convertToDecimal_def Let_def split: js_value.splits)

theorem convertToDecimal_base_error_witness:
  "convertToDecimal (Str ''101'') 17 = Inl BaseNotSupported \<and>
   convertToDecimal (Str ''101'') 1 = Inl BaseNotSupported \<and>
   convertToDecimal (Str ''101'') 2 \<noteq> Inl BaseNotSupported \<and>
   convertToDecimal (Str ''101'') 16 \<noteq> Inl BaseNotSupported"
  using convertToDecimal_base_error [of "Str ''101''" 17]
    convertToDecimal_base_error [of "Str ''101''" 1]
    convertToDecimal_base_error [of "Str ''101''" 2]
    convertToDecimal_base_error [of "Str ''101''" 16]
  by simp

text \<open>
  C9. For every integer \<open>r\<close> that a Number holds (every root that \<open>convertToDecimal\<close>
  returns is one, by \<open>convertToDecimal_representable\<close>), \<open>buildPolynomial([r])\<close> is exactly
  \<open>[-r, 1]\<close>.
\<close>

theorem buildPolynomial_single_root:
  "representable r \<Longrightarrow> buildPolynomial [Fin r] = Inr [Fin (- r), Fin 1]"
  by (rule buildPolynomial_single)

theorem buildPolynomial_single_root_witness:
  "representable 5 \<and> buildPolynomial [Fin 5] = Inr [Fin (- 5), Fin 1]"
proof -
  have h: "representable 5" by (simp add: representable_def fl_exact)
  show ?thesis using h buildPolynomial_single_root [OF h] by simp
qed



end
